theory Spec2Isabelle
  imports Main "HOL-Library.Sublist" "HOL-Library.AList"
begin

section \<open>Values exchanged with the Canvas API\<close>

text \<open>
  The module \<^verbatim>\<open>canvasapi/paginated_list.py\<close> is embedded function by function.
  Decoded JSON bodies are values of \<open>json\<close>; a mapping is an association list read with
  \<open>map_of\<close> and written with \<open>AList.update\<close> (an existing key keeps its place, a new key
  goes to the end, as in a Python dict). A float is kept as mantissa and binary exponent;
  no function of the module looks inside one.
\<close>

datatype json =
    JNull
  | JBool bool
  | JInt int
  | JFloat int int
  | JStr string
  | JList "json list"
  | JDict "(string \<times> json) list"

text \<open>
  The exceptions the module raises or lets through. \<open>OtherError\<close> stands for whatever
  the injected requester, the body decoder or the item constructor raise themselves.
\<close>

datatype error =
    AssertionError
  | IndexError string
  | KeyError string
  | TypeError
  | AttributeError
  | ValueError string
  | OtherError string

text \<open>
  One call \<^verbatim>\<open>requester.request(method, url, _url=override, **params)\<close> and the part of
  its answer the module reads: \<^verbatim>\<open>response.links\<close> (relation name to the link's
  \<^verbatim>\<open>url\<close>; the HTTP library's link entries always carry that key) and
  \<^verbatim>\<open>response.json()\<close>, which may raise.
\<close>

record request =
  req_method :: string
  req_url :: "string option"
  req_url_override :: "string option"
  req_params :: "(string \<times> json) list"

record response =
  links :: "(string \<times> string) list"
  resp_json :: "error + json"

text \<open>
  The attributes \<^verbatim>\<open>__init__\<close> assigns once and no method writes afterwards form the
  configuration. The requester answers a request knowing the requests this collection
  issued before, so a server with state is covered; the item constructor may raise.
\<close>

record 'a config =
  content_class :: "(string \<times> json) list \<Rightarrow> error + 'a"
  base_url :: string
  new_quizzes_url :: string
  requester_request :: "request list \<Rightarrow> request \<Rightarrow> error + response"
  request_method :: string
  first_url :: string
  kwargs :: "(string \<times> json) list"
  extra_attribs :: "(string \<times> json) list"
  root :: "string option"
  url_override :: "string option"

text \<open>
  The attributes the methods mutate, with the requests issued so far (oldest first):
  a network call is an entry added to \<open>requests\<close>.
\<close>

record 'a paginated_list =
  elements :: "'a list"
  next_url :: "string option"
  next_params :: "(string \<times> json) list"
  requests :: "request list"

section \<open>Construction\<close>

definition first_params :: "(string \<times> json) list \<Rightarrow> (string \<times> json) list" where
  "first_params kw =
     AList.update ''per_page''
       (case map_of kw ''per_page'' of None \<Rightarrow> JInt 100 | Some v \<Rightarrow> v) kw"

definition init :: "'a config \<Rightarrow> 'a paginated_list" where
  "init cfg =
     \<lparr>elements = [], next_url = Some (first_url cfg),
      next_params = first_params (kwargs cfg), requests = []\<rparr>"

section \<open>Fetching one page\<close>

text \<open>
  \<^verbatim>\<open>re.search(r"(?:B|Q)(.*)", url)\<close> with both alternatives escaped, read at group 1:
  the leftmost position where \<open>B\<close> or, failing that, \<open>Q\<close> starts; the group is the rest
  of the line, since \<^verbatim>\<open>.\<close> stops at a line feed. \<open>None\<close> is the failed search.
\<close>

definition dot_star :: "string \<Rightarrow> string" where
  "dot_star u = takeWhile (\<lambda>c. c \<noteq> CHR 0x0A) u"

fun re_search_group1 :: "string \<Rightarrow> string \<Rightarrow> string \<Rightarrow> string option" where
  "re_search_group1 b q [] = (if b = [] \<or> q = [] then Some [] else None)"
| "re_search_group1 b q (c # cs) =
     (if prefix b (c # cs) then Some (dot_star (drop (length b) (c # cs)))
      else if prefix q (c # cs) then Some (dot_star (drop (length q) (c # cs)))
      else re_search_group1 b q cs)"

text \<open>\<^verbatim>\<open>value[key]\<close> with a string key: only a mapping can be subscripted that way.\<close>

fun json_item :: "json \<Rightarrow> string \<Rightarrow> error + json" where
  "json_item (JDict d) k = (case map_of d k of None \<Rightarrow> Inl (KeyError k) | Some v \<Rightarrow> Inr v)"
| "json_item _ k = Inl TypeError"

fun has_key :: "json \<Rightarrow> string \<Rightarrow> bool" where
  "has_key (JDict d) k = (map_of d k \<noteq> None)"
| "has_key _ k = False"

text \<open>
  Lines 92 to 102: the link the cursor is taken from. A non-empty \<^verbatim>\<open>response.links\<close>
  decides alone; the body's \<^verbatim>\<open>meta\<close> is read only under an empty one, and of the
  errors of \<^verbatim>\<open>data["meta"]["pagination"]["next"]\<close> only KeyError is caught.
\<close>

definition meta_next :: "json \<Rightarrow> error + json" where
  "meta_next data =
     (case json_item data ''meta'' of Inl e \<Rightarrow> Inl e
      | Inr m \<Rightarrow> (case json_item m ''pagination'' of Inl e \<Rightarrow> Inl e
          | Inr p \<Rightarrow> json_item p ''next''))"

definition next_link :: "response \<Rightarrow> json \<Rightarrow> error + json option" where
  "next_link resp data =
     (if links resp \<noteq> [] then Inr (map_option JStr (map_of (links resp) ''next''))
      else if has_key data ''meta'' then
        (case meta_next data of
           Inr u \<Rightarrow> Inr (Some u)
         | Inl (KeyError k) \<Rightarrow> Inr None
         | Inl e \<Rightarrow> Inl e)
      else Inr None)"

text \<open>
  Lines 104 to 111: the stored locator. \<^verbatim>\<open>re.search\<close> refuses a URL that is not a
  string, and \<^verbatim>\<open>.group\<close> on a failed search is an AttributeError.
\<close>

definition normalise :: "'a config \<Rightarrow> json option \<Rightarrow> error + string option" where
  "normalise cfg nl =
     (case nl of
        None \<Rightarrow> Inr None
      | Some (JStr u) \<Rightarrow>
          (case re_search_group1 (base_url cfg) (new_quizzes_url cfg) u of
             None \<Rightarrow> Inl AttributeError
           | Some r \<Rightarrow> Inr (Some r))
      | Some _ \<Rightarrow> Inl TypeError)"

text \<open>Lines 117 to 123: a non-empty root name selects a field of the body.\<close>

definition unwrap_root :: "'a config \<Rightarrow> json \<Rightarrow> error + json" where
  "unwrap_root cfg data =
     (case root cfg of
        None \<Rightarrow> Inr data
      | Some r \<Rightarrow>
          if r = [] then Inr data
          else (case json_item data r of
                  Inr v \<Rightarrow> Inr v
                | Inl (KeyError k) \<Rightarrow>
                    Inl (ValueError (''The key <'' @ r @ ''> does not exist in the response.''))
                | Inl e \<Rightarrow> Inl e))"

text \<open>
  Lines 125 to 128. \<^verbatim>\<open>for element in data\<close> walks a list, the keys of a mapping or
  the characters of a string; \<^verbatim>\<open>element.update\<close> exists on mappings only.
\<close>

fun iter_json :: "json \<Rightarrow> error + json list" where
  "iter_json (JList xs) = Inr xs"
| "iter_json (JDict d) = Inr (map (\<lambda>kv. JStr (fst kv)) d)"
| "iter_json (JStr s) = Inr (map (\<lambda>c. JStr [c]) s)"
| "iter_json _ = Inl TypeError"

definition dict_update :: "(string \<times> json) list \<Rightarrow> (string \<times> json) list \<Rightarrow> (string \<times> json) list" where
  "dict_update element extra = foldl (\<lambda>d kv. AList.update (fst kv) (snd kv) d) element extra"

fun build_content :: "'a config \<Rightarrow> json list \<Rightarrow> error + 'a list" where
  "build_content cfg [] = Inr []"
| "build_content cfg (JNull # es) = build_content cfg es"
| "build_content cfg (JDict d # es) =
     (case content_class cfg (dict_update d (extra_attribs cfg)) of
        Inl e \<Rightarrow> Inl e
      | Inr x \<Rightarrow> (case build_content cfg es of Inl e \<Rightarrow> Inl e | Inr xs \<Rightarrow> Inr (x # xs)))"
| "build_content cfg (_ # es) = Inl AttributeError"

definition page_content :: "'a config \<Rightarrow> json \<Rightarrow> error + 'a list" where
  "page_content cfg data =
     (case unwrap_root cfg data of Inl e \<Rightarrow> Inl e
      | Inr d \<Rightarrow> (case iter_json d of Inl e \<Rightarrow> Inl e | Inr es \<Rightarrow> build_content cfg es))"

text \<open>
  \<^verbatim>\<open>_get_next_page\<close>. An exception leaves the attributes as they were assigned up to
  that line, so every branch returns the state it reached. The call names \<^verbatim>\<open>_url\<close>
  beside \<^verbatim>\<open>**self._next_params\<close>: parameters holding that key as well make the call
  itself a TypeError, raised before the requester runs and with no request made.
\<close>

definition page_request :: "'a config \<Rightarrow> 'a paginated_list \<Rightarrow> request" where
  "page_request cfg s =
     \<lparr>req_method = request_method cfg, req_url = next_url s,
      req_url_override = url_override cfg, req_params = next_params s\<rparr>"

definition get_next_page :: "'a config \<Rightarrow> 'a paginated_list \<Rightarrow> (error + 'a list) \<times> 'a paginated_list" where
  "get_next_page cfg s =
     (if map_of (next_params s) ''_url'' \<noteq> None then (Inl TypeError, s)
      else
        (let req = page_request cfg s;
             s0 = s\<lparr>requests := requests s @ [req]\<rparr>
         in case requester_request cfg (requests s) req of
              Inl e \<Rightarrow> (Inl e, s0)
            | Inr resp \<Rightarrow>
               (case resp_json resp of
                  Inl e \<Rightarrow> (Inl e, s0)
                | Inr data \<Rightarrow>
                   (let s1 = s0\<lparr>next_url := None\<rparr>
                    in case next_link resp data of
                         Inl e \<Rightarrow> (Inl e, s1)
                       | Inr nl \<Rightarrow>
                          (case normalise cfg nl of
                             Inl e \<Rightarrow> (Inl e, s1)
                           | Inr nu \<Rightarrow>
                              (page_content cfg data,
                               s1\<lparr>next_url := nu, next_params := []\<rparr>))))))"

section \<open>Backing store and growth\<close>

definition has_next :: "'a paginated_list \<Rightarrow> bool" where
  "has_next s = (next_url s \<noteq> None)"

definition is_larger_than :: "'a paginated_list \<Rightarrow> int \<Rightarrow> bool" where
  "is_larger_than s index = (int (length (elements s)) > index \<or> has_next s)"

definition grow :: "'a config \<Rightarrow> 'a paginated_list \<Rightarrow> (error + 'a list) \<times> 'a paginated_list" where
  "grow cfg s =
     (case get_next_page cfg s of
        (Inl e, s1) \<Rightarrow> (Inl e, s1)
      | (Inr new_elements, s1) \<Rightarrow>
          (Inr new_elements, s1\<lparr>elements := elements s1 @ new_elements\<rparr>))"

text \<open>
  The loops of the module fetch pages for as long as the server hands out cursors, so
  each takes fuel: the number of times its body may still run. \<open>None\<close> is the loop that
  has not returned within that bound; the test of the loop comes before the fuel is
  looked at, so a loop whose test fails returns with no fuel at all.
\<close>

fun get_up_to_index :: "nat \<Rightarrow> 'a config \<Rightarrow> int \<Rightarrow> 'a paginated_list \<Rightarrow> ((error + unit) \<times> 'a paginated_list) option" where
  "get_up_to_index fuel cfg index s =
     (if int (length (elements s)) \<le> index \<and> has_next s then
        (case fuel of
           0 \<Rightarrow> None
         | Suc n \<Rightarrow>
            (case grow cfg s of
               (Inl e, s1) \<Rightarrow> Some (Inl e, s1)
             | (Inr new_elements, s1) \<Rightarrow> get_up_to_index n cfg index s1))
      else Some (Inr (), s))"

section \<open>Index and slice access\<close>

text \<open>
  The argument of \<^verbatim>\<open>collection[...]\<close>: an integer, a slice whose three parts are
  integers or \<^verbatim>\<open>None\<close>, or any other object.
\<close>

datatype index =
    IInt int
  | ISlice "int option" "int option" "int option"
  | IStr string
  | IFloat int int
  | INone

record slice =
  slice_start :: int
  slice_stop :: "int option"
  slice_step :: int

datatype 'a item = Element 'a | Slice slice

text \<open>
  \<^verbatim>\<open>_Slice.__init__\<close>. \<^verbatim>\<open>x or d\<close> takes the default for \<^verbatim>\<open>None\<close> and for zero.
  In \<^verbatim>\<open>self._start < 0 or self._stop < 0\<close> the second comparison runs when the first
  is false, and ordering \<^verbatim>\<open>None\<close> against an integer is a TypeError.
\<close>

definition or_default :: "int option \<Rightarrow> int \<Rightarrow> int" where
  "or_default x d = (case x of None \<Rightarrow> d | Some v \<Rightarrow> if v = 0 then d else v)"

definition Slice_init :: "int option \<Rightarrow> int option \<Rightarrow> int option \<Rightarrow> error + slice" where
  "Slice_init start stop step =
     (let sl = \<lparr>slice_start = or_default start 0, slice_stop = stop,
                slice_step = or_default step 1\<rparr>
      in if slice_start sl < 0 then
           Inl (IndexError ''Cannot negative index a PaginatedList slice'')
         else (case slice_stop sl of
                 None \<Rightarrow> Inl TypeError
               | Some e \<Rightarrow>
                   if e < 0 then Inl (IndexError ''Cannot negative index a PaginatedList slice'')
                   else Inr sl))"

text \<open>
  \<^verbatim>\<open>__getitem__\<close>, its integer branch first (the slice walk below calls it with
  integers only). After \<^verbatim>\<open>_get_up_to_index\<close> the read \<^verbatim>\<open>self._elements[index]\<close>
  is a list read at a non-negative index, an IndexError beyond the end; its message is
  another one when the index does not fit a machine word (64 bits here).
\<close>

fun getitem_int :: "nat \<Rightarrow> 'a config \<Rightarrow> int \<Rightarrow> 'a paginated_list \<Rightarrow> ((error + 'a) \<times> 'a paginated_list) option" where
  "getitem_int fuel cfg i s =
     (if i < 0 then Some (Inl (IndexError ''Cannot negative index a PaginatedList''), s)
      else (case get_up_to_index fuel cfg i s of
              None \<Rightarrow> None
            | Some (Inl e, s1) \<Rightarrow> Some (Inl e, s1)
            | Some (Inr u, s1) \<Rightarrow>
                if nat i < length (elements s1) then Some (Inr (elements s1 ! nat i), s1)
                else if i < 2 ^ 63 then Some (Inl (IndexError ''list index out of range''), s1)
                else Some (Inl (IndexError ''cannot fit 'int' into an index-sized integer''), s1)))"

fun getitem :: "nat \<Rightarrow> 'a config \<Rightarrow> index \<Rightarrow> 'a paginated_list \<Rightarrow> ((error + 'a item) \<times> 'a paginated_list) option" where
  "getitem fuel cfg (IInt i) s =
     (case getitem_int fuel cfg i s of
        None \<Rightarrow> None
      | Some (Inl e, s1) \<Rightarrow> Some (Inl e, s1)
      | Some (Inr x, s1) \<Rightarrow> Some (Inr (Element x), s1))"
| "getitem fuel cfg (ISlice start stop step) s =
     (case Slice_init start stop step of
        Inl e \<Rightarrow> Some (Inl e, s)
      | Inr sl \<Rightarrow> Some (Inr (Slice sl), s))"
| "getitem fuel cfg _ s = Some (Inl AssertionError, s)"

definition Slice_finished :: "slice \<Rightarrow> int \<Rightarrow> bool" where
  "Slice_finished sl index = (case slice_stop sl of None \<Rightarrow> False | Some e \<Rightarrow> index \<ge> e)"

text \<open>
  \<^verbatim>\<open>_Slice.__iter__\<close> run to its end from \<open>index\<close>: the items it yields, the exception
  that ended it if one did, and the collection it leaves. An IndexError of the read ends
  the walk silently; any other exception of a page fetch reaches the consumer. Each
  pass of the loop uses one unit of fuel and lends the rest to the read it makes.
\<close>

fun Slice_iter_from :: "nat \<Rightarrow> 'a config \<Rightarrow> slice \<Rightarrow> int \<Rightarrow> 'a paginated_list \<Rightarrow> ('a list \<times> error option \<times> 'a paginated_list) option" where
  "Slice_iter_from fuel cfg sl index s =
     (if \<not> Slice_finished sl index then
        (if is_larger_than s index then
           (case fuel of
              0 \<Rightarrow> None
            | Suc n \<Rightarrow>
               (case getitem_int n cfg index s of
                  None \<Rightarrow> None
                | Some (Inl (IndexError m), s1) \<Rightarrow> Some ([], None, s1)
                | Some (Inl e, s1) \<Rightarrow> Some ([], Some e, s1)
                | Some (Inr x, s1) \<Rightarrow>
                   (case Slice_iter_from n cfg sl (index + slice_step sl) s1 of
                      None \<Rightarrow> None
                    | Some (ys, e, s2) \<Rightarrow> Some (x # ys, e, s2))))
         else Some ([], None, s))
      else Some ([], None, s))"

definition Slice_iter :: "nat \<Rightarrow> 'a config \<Rightarrow> slice \<Rightarrow> 'a paginated_list \<Rightarrow> ('a list \<times> error option \<times> 'a paginated_list) option" where
  "Slice_iter fuel cfg sl s = Slice_iter_from fuel cfg sl (slice_start sl) s"

section \<open>Full iteration\<close>

text \<open>
  \<^verbatim>\<open>__iter__\<close> is a generator. Between two of its yields it is suspended in the
  first loop, the list iterator over \<^verbatim>\<open>self._elements\<close> having handed out \<open>k\<close>
  elements (\<open>Replay k\<close>; a pass starts as \<open>Replay 0\<close>), or in the loop over the page it
  fetched last, with the rest of \<^verbatim>\<open>new_elements\<close> still to yield (\<open>Fresh\<close>); after
  its end or an exception it is \<open>Done\<close>. The collection may change while it is
  suspended: the first loop reads the list as it then is, the second never looks at
  \<^verbatim>\<open>self._elements\<close>.
\<close>

datatype 'a iter_gen = Replay nat | Fresh "'a list" | Done

text \<open>
  The \<^verbatim>\<open>while self._has_next()\<close> loop from its test to the next yield: it fetches
  until a page has an item. \<open>Inr None\<close> is the generator's end (StopIteration).
\<close>

fun iter_resume :: "nat \<Rightarrow> 'a config \<Rightarrow> 'a paginated_list \<Rightarrow> ((error + 'a option) \<times> 'a iter_gen \<times> 'a paginated_list) option" where
  "iter_resume fuel cfg s =
     (if has_next s then
        (case fuel of
           0 \<Rightarrow> None
         | Suc n \<Rightarrow>
            (case grow cfg s of
               (Inl e, s1) \<Rightarrow> Some (Inl e, Done, s1)
             | (Inr [], s1) \<Rightarrow> iter_resume n cfg s1
             | (Inr (x # xs), s1) \<Rightarrow> Some (Inr (Some x), Fresh xs, s1)))
      else Some (Inr None, Done, s))"

text \<open>One \<^verbatim>\<open>next()\<close> on the generator, on the collection as it is at that moment.\<close>

definition iter_next :: "nat \<Rightarrow> 'a config \<Rightarrow> 'a iter_gen \<Rightarrow> 'a paginated_list \<Rightarrow> ((error + 'a option) \<times> 'a iter_gen \<times> 'a paginated_list) option" where
  "iter_next fuel cfg g s =
     (case g of
        Replay k \<Rightarrow>
          if k < length (elements s) then Some (Inr (Some (elements s ! k)), Replay (Suc k), s)
          else iter_resume fuel cfg s
      | Fresh (x # xs) \<Rightarrow> Some (Inr (Some x), Fresh xs, s)
      | Fresh [] \<Rightarrow> iter_resume fuel cfg s
      | Done \<Rightarrow> Some (Inr None, Done, s))"

text \<open>
  A consumer that calls \<^verbatim>\<open>next()\<close> up to \<open>k\<close> times in a row, with nothing else
  touching the collection in between: the items it received, how it stopped (it
  stopped asking, the generator ended, or an exception came out), the generator and the
  collection it leaves. Every call has the same fuel.
\<close>

datatype ending = Suspended | Stopped | Raised error

fun iter_take :: "nat \<Rightarrow> nat \<Rightarrow> 'a config \<Rightarrow> 'a iter_gen \<Rightarrow> 'a paginated_list \<Rightarrow> ('a list \<times> ending \<times> 'a iter_gen \<times> 'a paginated_list) option" where
  "iter_take 0 fuel cfg g s = Some ([], Suspended, g, s)"
| "iter_take (Suc k) fuel cfg g s =
     (case iter_next fuel cfg g s of
        None \<Rightarrow> None
      | Some (Inl e, g1, s1) \<Rightarrow> Some ([], Raised e, g1, s1)
      | Some (Inr None, g1, s1) \<Rightarrow> Some ([], Stopped, g1, s1)
      | Some (Inr (Some x), g1, s1) \<Rightarrow>
         (case iter_take k fuel cfg g1 s1 of
            None \<Rightarrow> None
          | Some (ys, en, g2, s2) \<Rightarrow> Some (x # ys, en, g2, s2)))"

text \<open>
  A pass nothing interrupts, run to its end in one go: the materialised elements
  first, then page after page while a cursor is present. (Lemma \<open>iter_is_iter_take\<close>
  below: it is what \<open>iter_take\<close> returns from \<open>Replay 0\<close> when asked often enough.)
\<close>

fun iter_pages :: "nat \<Rightarrow> 'a config \<Rightarrow> 'a paginated_list \<Rightarrow> ('a list \<times> error option \<times> 'a paginated_list) option" where
  "iter_pages fuel cfg s =
     (if has_next s then
        (case fuel of
           0 \<Rightarrow> None
         | Suc n \<Rightarrow>
            (case grow cfg s of
               (Inl e, s1) \<Rightarrow> Some ([], Some e, s1)
             | (Inr new_elements, s1) \<Rightarrow>
                (case iter_pages n cfg s1 of
                   None \<Rightarrow> None
                 | Some (ys, e, s2) \<Rightarrow> Some (new_elements @ ys, e, s2))))
      else Some ([], None, s))"

definition iter :: "nat \<Rightarrow> 'a config \<Rightarrow> 'a paginated_list \<Rightarrow> ('a list \<times> error option \<times> 'a paginated_list) option" where
  "iter fuel cfg s =
     (case iter_pages fuel cfg s of
        None \<Rightarrow> None
      | Some (ys, e, s1) \<Rightarrow> Some (elements s @ ys, e, s1))"

section \<open>Sessions on one collection and sources of several pages\<close>



text \<open>
  A source serves the pages \<open>ps\<close> to a collection in state \<open>s\<close> when a cursor is
  present before each of \<open>length ps\<close> successive fetches, the fetches succeed and
  return these pages in this order, and the cursor is absent after the last.
\<close>

fun serves_pages :: "'a config \<Rightarrow> 'a paginated_list \<Rightarrow> 'a list list \<Rightarrow> bool" where
  "serves_pages cfg s [] = (\<not> has_next s)"
| "serves_pages cfg s (p # ps) =
     (has_next s \<and>
      (case grow cfg s of
         (Inl e, s1) \<Rightarrow> False
       | (Inr new_elements, s1) \<Rightarrow> new_elements = p \<and> serves_pages cfg s1 ps))"

text \<open>
  Of the pages \<open>ps\<close> of such a source the collection has fetched the first \<open>j\<close>: it
  holds their items, has made \<open>j\<close> requests and is served the rest.
\<close>

definition fetched :: "'a config \<Rightarrow> 'a list list \<Rightarrow> nat \<Rightarrow> 'a paginated_list \<Rightarrow> bool" where
  "fetched cfg ps j s =
     (j \<le> length ps \<and> serves_pages cfg s (drop j ps) \<and>
      elements s = concat (take j ps) \<and> length (requests s) = j)"

text \<open>What a pass of \<open>k\<close> more calls returns once its current call has returned \<open>r\<close>.\<close>

definition after_next :: "nat \<Rightarrow> nat \<Rightarrow> 'a config \<Rightarrow> ((error + 'a option) \<times> 'a iter_gen \<times> 'a paginated_list) option \<Rightarrow> ('a list \<times> ending \<times> 'a iter_gen \<times> 'a paginated_list) option" where
  "after_next k fuel cfg r =
     (case r of
        None \<Rightarrow> None
      | Some (Inl e, g1, s1) \<Rightarrow> Some ([], Raised e, g1, s1)
      | Some (Inr None, g1, s1) \<Rightarrow> Some ([], Stopped, g1, s1)
      | Some (Inr (Some x), g1, s1) \<Rightarrow>
         (case iter_take k fuel cfg g1 s1 of
            None \<Rightarrow> None
          | Some (ys, en, g2, s2) \<Rightarrow> Some (x # ys, en, g2, s2)))"

section \<open>A course listing\<close>

text \<open>
  Seven courses served in three pages of three, two (around a null entry) and two
  items, the second link pointing at the new-quizzes host; and a requester that gives
  one fixed answer, for single fetches.
\<close>

definition course :: "int \<Rightarrow> json" where
  "course n = JDict [(''id'', JInt n)]"

definition course_id :: "(string \<times> json) list \<Rightarrow> error + int" where
  "course_id d =
     (case map_of d ''id'' of Some (JInt n) \<Rightarrow> Inr n | _ \<Rightarrow> Inl (OtherError ''no id''))"

definition course_server :: "request list \<Rightarrow> request \<Rightarrow> error + response" where
  "course_server lg rq =
     (if req_url rq = Some ''courses'' then
        Inr \<lparr>links = [(''next'', ''https://h/api/v1/courses?page=2'')],
             resp_json = Inr (JList [course 1, course 2, course 3])\<rparr>
      else if req_url rq = Some ''courses?page=2'' then
        Inr \<lparr>links = [(''next'', ''https://h/api/quiz/v1/courses?page=3''),
                      (''prev'', ''https://h/api/v1/courses'')],
             resp_json = Inr (JList [course 4, JNull, course 5])\<rparr>
      else if req_url rq = Some ''courses?page=3'' then
        Inr \<lparr>links = [(''prev'', ''https://h/api/v1/courses?page=2'')],
             resp_json = Inr (JList [course 6, course 7])\<rparr>
      else Inl (OtherError ''404''))"

definition answering :: "(request list \<Rightarrow> request \<Rightarrow> error + response) \<Rightarrow> string option \<Rightarrow> int config" where
  "answering srv r =
     \<lparr>content_class = course_id,
      base_url = ''https://h/api/v1/'', new_quizzes_url = ''https://h/api/quiz/v1/'',
      requester_request = srv, request_method = ''GET'', first_url = ''courses'',
      kwargs = [], extra_attribs = [], root = r, url_override = None\<rparr>"

definition courses :: "int config" where
  "courses = answering course_server None"

definition one_page :: "int paginated_list" where
  "one_page =
     \<lparr>elements = [1, 2, 3], next_url = Some ''courses?page=2'', next_params = [],
      requests =
        [\<lparr>req_method = ''GET'', req_url = Some ''courses'', req_url_override = None,
          req_params = [(''per_page'', JInt 100)]\<rparr>]\<rparr>"

definition two_pages :: "int paginated_list" where
  "two_pages =
     \<lparr>elements = [1, 2, 3, 4, 5], next_url = Some ''courses?page=3'', next_params = [],
      requests =
        [\<lparr>req_method = ''GET'', req_url = Some ''courses'', req_url_override = None,
          req_params = [(''per_page'', JInt 100)]\<rparr>,
         \<lparr>req_method = ''GET'', req_url = Some ''courses?page=2'', req_url_override = None,
          req_params = []\<rparr>]\<rparr>"

definition three_pages :: "int paginated_list" where
  "three_pages =
     \<lparr>elements = [1, 2, 3, 4, 5, 6, 7], next_url = None, next_params = [],
      requests = requests two_pages @
        [\<lparr>req_method = ''GET'', req_url = Some ''courses?page=3'', req_url_override = None,
          req_params = []\<rparr>]\<rparr>"

definition meta_body :: "(string \<times> json) list \<Rightarrow> json" where
  "meta_body m = JDict [(''items'', JList [course 1, course 2]), (''meta'', JDict m)]"

definition meta_next_body :: "string \<Rightarrow> json" where
  "meta_next_body u = meta_body [(''pagination'', JDict [(''next'', JStr u)])]"

definition once :: "(string \<times> string) list \<Rightarrow> json \<Rightarrow> string option \<Rightarrow> int config" where
  "once lnks data r = answering (\<lambda>lg rq. Inr \<lparr>links = lnks, resp_json = Inr data\<rparr>) r"

declare get_up_to_index.simps [simp del]
declare getitem_int.simps [simp del]
declare Slice_iter_from.simps [simp del]
declare iter_pages.simps [simp del]
declare iter_resume.simps [simp del]

section \<open>Facts about one fetch and the loops\<close>

text \<open>
  A fetch never touches the materialised elements and, when it returns a page, has
  made exactly one request; growth appends the page it fetched. The loops inherit
  these facts by induction on the fuel.
\<close>

lemma get_next_page_elements: "elements (snd (get_next_page cfg s)) = elements s"
  by (simp add: get_next_page_def Let_def split: sum.splits)


lemma get_next_page_response:
  assumes "map_of (next_params s) ''_url'' = None"
    and "requester_request cfg (requests s) (page_request cfg s) = Inr resp"
    and "resp_json resp = Inr data"
  shows "get_next_page cfg s =
     (case next_link resp data of
        Inl e \<Rightarrow> (Inl e, s\<lparr>requests := requests s @ [page_request cfg s], next_url := None\<rparr>)
      | Inr nl \<Rightarrow>
         (case normalise cfg nl of
            Inl e \<Rightarrow> (Inl e, s\<lparr>requests := requests s @ [page_request cfg s], next_url := None\<rparr>)
          | Inr nu \<Rightarrow>
             (page_content cfg data,
              s\<lparr>requests := requests s @ [page_request cfg s], next_url := nu, next_params := []\<rparr>)))"
  using assms by (simp add: get_next_page_def Let_def split: sum.splits)

lemma grow_elements_error: "grow cfg s = (Inl e, s1) \<Longrightarrow> elements s1 = elements s"
  using get_next_page_elements [of cfg s]
  by (auto simp: grow_def split: prod.splits sum.splits)

lemma grow_elements_page: "grow cfg s = (Inr new, s1) \<Longrightarrow> elements s1 = elements s @ new"
  using get_next_page_elements [of cfg s]
  by (auto simp: grow_def split: prod.splits sum.splits)

lemma grow_prefix: "grow cfg s = (r, s1) \<Longrightarrow> prefix (elements s) (elements s1)"
  by (cases r) (auto dest: grow_elements_error grow_elements_page)


lemma get_up_to_index_exhausted:
  "next_url s = None \<Longrightarrow> get_up_to_index fuel cfg i s = Some (Inr (), s)"
  by (subst get_up_to_index.simps) (simp add: has_next_def)

lemma get_up_to_index_enough:
  "i < int (length (elements s)) \<Longrightarrow> get_up_to_index fuel cfg i s = Some (Inr (), s)"
  by (subst get_up_to_index.simps) simp

lemma get_up_to_index_prefix:
  "get_up_to_index fuel cfg i s = Some (r, s1) \<Longrightarrow> prefix (elements s) (elements s1)"
proof (induction fuel arbitrary: s)
  case 0
  then show ?case
    by (subst (asm) get_up_to_index.simps) (auto split: if_splits)
next
  case (Suc n)
  show ?case
  proof (cases "int (length (elements s)) \<le> i \<and> has_next s")
    case False
    with Suc.prems show ?thesis
      by (subst (asm) get_up_to_index.simps) auto
  next
    case True
    obtain g s0 where g: "grow cfg s = (g, s0)" by (cases "grow cfg s")
    have p: "prefix (elements s) (elements s0)" using g by (rule grow_prefix)
    show ?thesis
    proof (cases g)
      case (Inl e)
      with Suc.prems True g have "s1 = s0"
        by (subst (asm) get_up_to_index.simps) auto
      with p show ?thesis by simp
    next
      case (Inr new)
      with Suc.prems True g have "get_up_to_index n cfg i s0 = Some (r, s1)"
        by (subst (asm) get_up_to_index.simps) auto
      then have "prefix (elements s0) (elements s1)" by (rule Suc.IH)
      with p show ?thesis by (rule prefix_order.trans)
    qed
  qed
qed

lemma getitem_int_exhausted:
  "next_url s = None \<Longrightarrow> \<exists>r. getitem_int fuel cfg i s = Some (r, s)"
  by (subst getitem_int.simps) (simp add: get_up_to_index_exhausted)

lemma getitem_int_exhausted_state:
  "next_url s = None \<Longrightarrow> getitem_int fuel cfg i s = Some (r, s1) \<Longrightarrow> s1 = s"
  using getitem_int_exhausted [of s fuel cfg i] by auto

lemma getitem_int_prefix:
  "getitem_int fuel cfg i s = Some (r, s1) \<Longrightarrow> prefix (elements s) (elements s1)"
  by (subst (asm) getitem_int.simps)
     (auto split: if_splits option.splits sum.splits dest: get_up_to_index_prefix)

lemma getitem_int_ok:
  "getitem_int fuel cfg i s = Some (Inr x, s1) \<Longrightarrow>
     0 \<le> i \<and> nat i < length (elements s1) \<and> x = elements s1 ! nat i"
  by (subst (asm) getitem_int.simps)
     (auto split: if_splits option.splits sum.splits)

lemma getitem_int_again:
  assumes "0 \<le> i" "nat i < length (elements s)"
  shows "getitem_int fuel cfg i s = Some (Inr (elements s ! nat i), s)"
proof -
  from assms have "i < int (length (elements s))" by linarith
  then have "get_up_to_index fuel cfg i s = Some (Inr (), s)"
    by (rule get_up_to_index_enough)
  with assms show ?thesis
    by (subst getitem_int.simps) simp
qed

lemma getitem_prefix:
  "getitem fuel cfg idx s = Some (r, s1) \<Longrightarrow> prefix (elements s) (elements s1)"
  by (cases idx) (auto split: option.splits sum.splits dest: getitem_int_prefix)

lemma getitem_exhausted:
  "next_url s = None \<Longrightarrow> getitem fuel cfg idx s = Some (r, s1) \<Longrightarrow> s1 = s"
  by (cases idx) (auto split: option.splits sum.splits dest: getitem_int_exhausted_state)

lemma Slice_iter_from_prefix:
  "Slice_iter_from fuel cfg sl i s = Some (ys, e, s2) \<Longrightarrow> prefix (elements s) (elements s2)"
proof (induction fuel arbitrary: i s ys e)
  case 0
  then show ?case
    by (subst (asm) Slice_iter_from.simps) (auto split: if_splits)
next
  case (Suc n)
  show ?case
  proof (cases "\<not> Slice_finished sl i \<and> is_larger_than s i")
    case False
    with Suc.prems show ?thesis
      by (subst (asm) Slice_iter_from.simps) (auto split: if_splits)
  next
    case True
    with Suc.prems obtain r s1 where g: "getitem_int n cfg i s = Some (r, s1)"
      by (subst (asm) Slice_iter_from.simps) (auto split: option.splits)
    then have p: "prefix (elements s) (elements s1)" by (rule getitem_int_prefix)
    show ?thesis
    proof (cases r)
      case (Inl err)
      with Suc.prems True g have "s2 = s1"
        by (subst (asm) Slice_iter_from.simps) (auto split: error.splits)
      with p show ?thesis by simp
    next
      case (Inr x)
      with Suc.prems True g obtain ys' where
        "Slice_iter_from n cfg sl (i + slice_step sl) s1 = Some (ys', e, s2)"
        by (subst (asm) Slice_iter_from.simps) (auto split: option.splits)
      then have "prefix (elements s1) (elements s2)" by (rule Suc.IH)
      with p show ?thesis by (rule prefix_order.trans)
    qed
  qed
qed

lemma Slice_iter_from_exhausted:
  "next_url s = None \<Longrightarrow> Slice_iter_from fuel cfg sl i s = Some (ys, e, s2) \<Longrightarrow> s2 = s"
proof (induction fuel arbitrary: i ys e)
  case 0
  then show ?case
    by (subst (asm) Slice_iter_from.simps) (auto split: if_splits)
next
  case (Suc n)
  show ?case
  proof (cases "\<not> Slice_finished sl i \<and> is_larger_than s i")
    case False
    with Suc.prems show ?thesis
      by (subst (asm) Slice_iter_from.simps) (auto split: if_splits)
  next
    case True
    with Suc.prems obtain r s1 where g: "getitem_int n cfg i s = Some (r, s1)"
      by (subst (asm) Slice_iter_from.simps) (auto split: option.splits)
    with Suc.prems(1) have s1: "s1 = s" by (auto dest: getitem_int_exhausted_state)
    show ?thesis
    proof (cases r)
      case (Inl err)
      with Suc.prems True g s1 show ?thesis
        by (subst (asm) Slice_iter_from.simps) (auto split: error.splits)
    next
      case (Inr x)
      with Suc.prems True g s1 obtain ys' where
        "Slice_iter_from n cfg sl (i + slice_step sl) s = Some (ys', e, s2)"
        by (subst (asm) Slice_iter_from.simps) (auto split: option.splits)
      with Suc.prems(1) show ?thesis by (rule Suc.IH)
    qed
  qed
qed

lemma iter_pages_exhausted:
  "next_url s = None \<Longrightarrow> iter_pages fuel cfg s = Some ([], None, s)"
  by (subst iter_pages.simps) (simp add: has_next_def)

lemma iter_pages_prefix:
  "iter_pages fuel cfg s = Some (ys, e, s2) \<Longrightarrow> prefix (elements s) (elements s2)"
proof (induction fuel arbitrary: s ys e)
  case 0
  then show ?case
    by (subst (asm) iter_pages.simps) (auto split: if_splits)
next
  case (Suc n)
  show ?case
  proof (cases "has_next s")
    case False
    with Suc.prems show ?thesis
      by (subst (asm) iter_pages.simps) auto
  next
    case True
    obtain g s0 where g: "grow cfg s = (g, s0)" by (cases "grow cfg s")
    have p: "prefix (elements s) (elements s0)" using g by (rule grow_prefix)
    show ?thesis
    proof (cases g)
      case (Inl err)
      with Suc.prems True g have "s2 = s0"
        by (subst (asm) iter_pages.simps) auto
      with p show ?thesis by simp
    next
      case (Inr new)
      with Suc.prems True g obtain ys' where "iter_pages n cfg s0 = Some (ys', e, s2)"
        by (subst (asm) iter_pages.simps) (auto split: option.splits)
      then have "prefix (elements s0) (elements s2)" by (rule Suc.IH)
      with p show ?thesis by (rule prefix_order.trans)
    qed
  qed
qed

lemma iter_exhausted:
  "next_url s = None \<Longrightarrow> iter fuel cfg s = Some (elements s, None, s)"
  by (simp add: iter_def iter_pages_exhausted)

lemma re_search_group1_None:
  "re_search_group1 b q u = None \<longleftrightarrow> \<not> sublist b u \<and> \<not> sublist q u"
  by (induction u) (auto simp: sublist_Cons_right)

lemma json_item_not_mapping: "\<forall>d. v \<noteq> JDict d \<Longrightarrow> json_item v k = Inl TypeError"
  by (cases v) auto

lemma page_content_mapping_no_root:
  assumes "root cfg = None \<or> root cfg = Some []" and "d \<noteq> []"
  shows "page_content cfg (JDict d) = Inl AttributeError"
proof -
  from assms(2) obtain kv d' where "d = kv # d'" by (cases d) auto
  with assms(1) show ?thesis
    by (auto simp: page_content_def unwrap_root_def)
qed

section \<open>Facts about the generator and about sources of several pages\<close>

lemma iter_take_Suc:
  "iter_take (Suc k) fuel cfg g s = after_next k fuel cfg (iter_next fuel cfg g s)"
  by (simp add: after_next_def)

lemma iter_next_Fresh_Nil: "iter_next fuel cfg (Fresh []) s = iter_resume fuel cfg s"
  by (simp add: iter_next_def)

lemma iter_next_Replay_end:
  "length (elements s) \<le> k \<Longrightarrow> iter_next fuel cfg (Replay k) s = iter_resume fuel cfg s"
  by (simp add: iter_next_def)

lemma iter_take_Fresh:
  "iter_take (length xs + n) fuel cfg (Fresh xs) s =
     map_option (\<lambda>(ys, r). (xs @ ys, r)) (iter_take n fuel cfg (Fresh []) s)"
proof (induction xs)
  case Nil
  show ?case by (cases "iter_take n fuel cfg (Fresh []) s") auto
next
  case (Cons x xs)
  then show ?case
    by (cases "iter_take n fuel cfg (Fresh []) s") (auto simp: iter_next_def)
qed

lemma iter_take_Replay:
  "k \<le> length (elements s) \<Longrightarrow>
     iter_take (length (elements s) - k + n) fuel cfg (Replay k) s =
       map_option (\<lambda>(ys, r). (drop k (elements s) @ ys, r))
         (iter_take n fuel cfg (Replay (length (elements s))) s)"
proof (induction "length (elements s) - k" arbitrary: k)
  case 0
  then have "k = length (elements s)" by simp
  then show ?case
    by (cases "iter_take n fuel cfg (Replay (length (elements s))) s") auto
next
  case (Suc d)
  then have k: "k < length (elements s)" and d: "d = length (elements s) - Suc k"
    by linarith+
  from Suc.hyps(1) [OF d] k
  have ih: "iter_take (length (elements s) - Suc k + n) fuel cfg (Replay (Suc k)) s =
      map_option (\<lambda>(ys, r). (drop (Suc k) (elements s) @ ys, r))
        (iter_take n fuel cfg (Replay (length (elements s))) s)"
    by simp
  from k have len: "length (elements s) - k + n = Suc (length (elements s) - Suc k + n)"
    by linarith
  from k have dr: "drop k (elements s) = elements s ! k # drop (Suc k) (elements s)"
    by (simp add: Cons_nth_drop_Suc)
  show ?case
    unfolding len dr using k ih
    by (cases "iter_take n fuel cfg (Replay (length (elements s))) s")
       (auto simp: iter_next_def)
qed

lemma fetched_end: "fetched cfg ps j s \<Longrightarrow> \<not> has_next s \<Longrightarrow> j = length ps"
proof (rule ccontr)
  assume f: "fetched cfg ps j s" and n: "\<not> has_next s" and "j \<noteq> length ps"
  with f have "j < length ps" by (simp add: fetched_def)
  then have "drop j ps = ps ! j # drop (Suc j) ps" by (simp add: Cons_nth_drop_Suc)
  with f have "has_next s" by (simp add: fetched_def)
  with n show False by simp
qed











lemma iter_resume_mono:
  "iter_resume f cfg s = Some r \<Longrightarrow> f \<le> f' \<Longrightarrow> iter_resume f' cfg s = Some r"
proof (induction f arbitrary: f' s)
  case 0
  then show ?case
    by (subst iter_resume.simps, subst (asm) iter_resume.simps) (auto split: if_splits)
next
  case (Suc n)
  from Suc.prems(2) obtain n' where f': "f' = Suc n'" and n': "n \<le> n'"
    by (cases f') auto
  show ?case
  proof (cases "has_next s")
    case False
    with Suc.prems(1) show ?thesis
      by (subst iter_resume.simps, subst (asm) iter_resume.simps) simp
  next
    case True
    obtain g s1 where g: "grow cfg s = (g, s1)" by (cases "grow cfg s")
    show ?thesis
    proof (cases g)
      case (Inl e)
      with Suc.prems(1) True g f' show ?thesis
        by (subst iter_resume.simps, subst (asm) iter_resume.simps) simp
    next
      case (Inr new)
      show ?thesis
      proof (cases new)
        case Nil
        with Suc.prems(1) True g Inr have "iter_resume n cfg s1 = Some r"
          by (subst (asm) iter_resume.simps) simp
        from Suc.IH [OF this n'] True g Inr Nil f' show ?thesis
          by (subst iter_resume.simps) simp
      next
        case (Cons x xs)
        with Suc.prems(1) True g Inr f' show ?thesis
          by (subst iter_resume.simps, subst (asm) iter_resume.simps) simp
      qed
    qed
  qed
qed

lemma iter_pages_is_rest:
  "iter_pages f1 cfg s = Some (ys, e, s') \<Longrightarrow> f1 \<le> fuel \<Longrightarrow> length ys \<le> n \<Longrightarrow>
     after_next n fuel cfg (iter_resume f1 cfg s) =
       Some (ys, (case e of None \<Rightarrow> Stopped | Some x \<Rightarrow> Raised x), Done, s')"
proof (induction f1 arbitrary: s ys n)
  case 0
  then show ?case
    by (subst iter_resume.simps, subst (asm) iter_pages.simps)
       (auto simp: after_next_def split: if_splits)
next
  case (Suc f0)
  show ?case
  proof (cases "has_next s")
    case False
    with Suc.prems(1) show ?thesis
      by (subst iter_resume.simps, subst (asm) iter_pages.simps) (simp add: after_next_def)
  next
    case True
    obtain g s1 where g: "grow cfg s = (g, s1)" by (cases "grow cfg s")
    show ?thesis
    proof (cases g)
      case (Inl err)
      with Suc.prems(1) True g show ?thesis
        by (subst iter_resume.simps, subst (asm) iter_pages.simps)
           (auto simp: after_next_def)
    next
      case (Inr new)
      with Suc.prems(1) True g obtain ys' where
        rest: "iter_pages f0 cfg s1 = Some (ys', e, s')" and ys: "ys = new @ ys'"
        by (subst (asm) iter_pages.simps) (auto split: option.splits)
      from Suc.prems(2) have f0: "f0 \<le> fuel" by simp
      show ?thesis
      proof (cases new)
        case Nil
        with ys Suc.prems(3) have "length ys' \<le> n" by simp
        from Suc.IH [OF rest f0 this] True g Inr Nil ys show ?thesis
          by (subst iter_resume.simps) simp
      next
        case (Cons x xs)
        with ys Suc.prems(3) obtain n0 where
          n: "n = length xs + Suc n0" and n0: "length ys' \<le> n0"
          by (auto simp: le_iff_add)
        let ?en = "case e of None \<Rightarrow> Stopped | Some x \<Rightarrow> Raised x"
        from Suc.IH [OF rest f0 n0]
        have a: "after_next n0 fuel cfg (iter_resume f0 cfg s1) = Some (ys', ?en, Done, s')" .
        then obtain r where r: "iter_resume f0 cfg s1 = Some r"
          by (cases "iter_resume f0 cfg s1") (auto simp: after_next_def)
        from iter_resume_mono [OF r f0] r a
        have "after_next n0 fuel cfg (iter_resume fuel cfg s1) = Some (ys', ?en, Done, s')"
          by simp
        then have "iter_take (Suc n0) fuel cfg (Fresh []) s1 = Some (ys', ?en, Done, s')"
          by (simp only: iter_take_Suc iter_next_Fresh_Nil)
        then have "iter_take n fuel cfg (Fresh xs) s1 = Some (xs @ ys', ?en, Done, s')"
          unfolding n by (simp only: iter_take_Fresh) simp
        moreover have "iter_resume (Suc f0) cfg s = Some (Inr (Some x), Fresh xs, s1)"
          using True g Inr Cons by (subst iter_resume.simps) simp
        ultimately show ?thesis
          using ys Cons by (simp add: after_next_def)
      qed
    qed
  qed
qed

lemma iter_is_iter_take:
  assumes "iter fuel cfg s = Some (ys, e, s')" and "length ys \<le> m"
  shows "iter_take (Suc m) fuel cfg (Replay 0) s =
           Some (ys, (case e of None \<Rightarrow> Stopped | Some x \<Rightarrow> Raised x), Done, s')"
proof -
  let ?en = "case e of None \<Rightarrow> Stopped | Some x \<Rightarrow> Raised x"
  from assms(1) obtain ys' where
    rest: "iter_pages fuel cfg s = Some (ys', e, s')" and ys: "ys = elements s @ ys'"
    by (auto simp: iter_def split: option.splits)
  with assms(2) obtain n where m: "m = length (elements s) + n" and n: "length ys' \<le> n"
    by (auto simp: le_iff_add)
  from iter_pages_is_rest [OF rest order_refl n]
  have "iter_take (Suc n) fuel cfg (Replay (length (elements s))) s = Some (ys', ?en, Done, s')"
    by (simp only: iter_take_Suc iter_next_Replay_end [OF order_refl])
  moreover have "iter_take (length (elements s) - 0 + Suc n) fuel cfg (Replay 0) s =
      map_option (\<lambda>(ys, r). (drop 0 (elements s) @ ys, r))
        (iter_take (Suc n) fuel cfg (Replay (length (elements s))) s)"
    by (rule iter_take_Replay) simp
  ultimately show ?thesis using m ys by simp
qed

lemma iter_resume_exhausted:
  "next_url s = None \<Longrightarrow> iter_resume fuel cfg s = Some (Inr None, Done, s)"
  by (subst iter_resume.simps) (simp add: has_next_def)

lemma iter_resume_prefix:
  "iter_resume fuel cfg s = Some (r, g, s1) \<Longrightarrow> prefix (elements s) (elements s1)"
proof (induction fuel arbitrary: s)
  case 0
  then show ?case
    by (subst (asm) iter_resume.simps) (auto split: if_splits)
next
  case (Suc n)
  show ?case
  proof (cases "has_next s")
    case False
    with Suc.prems show ?thesis
      by (subst (asm) iter_resume.simps) auto
  next
    case True
    obtain gr s0 where g: "grow cfg s = (gr, s0)" by (cases "grow cfg s")
    have p: "prefix (elements s) (elements s0)" using g by (rule grow_prefix)
    show ?thesis
    proof (cases gr)
      case (Inl err)
      with Suc.prems True g have "s1 = s0"
        by (subst (asm) iter_resume.simps) auto
      with p show ?thesis by simp
    next
      case (Inr new)
      show ?thesis
      proof (cases new)
        case Nil
        with Suc.prems True g Inr have "iter_resume n cfg s0 = Some (r, g, s1)"
          by (subst (asm) iter_resume.simps) simp
        then have "prefix (elements s0) (elements s1)" by (rule Suc.IH)
        with p show ?thesis by (rule prefix_order.trans)
      next
        case (Cons x xs)
        with Suc.prems True g Inr have "s1 = s0"
          by (subst (asm) iter_resume.simps) simp
        with p show ?thesis by simp
      qed
    qed
  qed
qed

lemma iter_next_prefix:
  "iter_next fuel cfg g s = Some (r, g1, s1) \<Longrightarrow> prefix (elements s) (elements s1)"
  by (auto simp: iter_next_def split: iter_gen.splits list.splits if_splits
      dest: iter_resume_prefix)

lemma iter_next_exhausted:
  "next_url s = None \<Longrightarrow> iter_next fuel cfg g s = Some (r, g1, s1) \<Longrightarrow> s1 = s"
  by (auto simp: iter_next_def iter_resume_exhausted split: iter_gen.splits list.splits if_splits)

lemma re_search_group1_leftmost:
  "sublist b u \<or> sublist q u \<Longrightarrow>
     \<exists>pre w post. u = pre @ w @ post \<and> (w = b \<or> w = q \<and> \<not> prefix b (w @ post)) \<and>
       (\<forall>k<length pre. \<not> prefix b (drop k u) \<and> \<not> prefix q (drop k u)) \<and>
       re_search_group1 b q u = Some (dot_star post)"
proof (induction u)
  case Nil
  have none: "\<forall>k<length ([]::string). \<not> prefix b (drop k []) \<and> \<not> prefix q (drop k [])"
    by simp
  show ?case
  proof (cases "b = []")
    case True
    have "([]::string) = [] @ b @ []" using True by simp
    moreover have "re_search_group1 b q [] = Some (dot_star [])"
      using True by (simp add: dot_star_def)
    ultimately show ?thesis using none by blast
  next
    case False
    with Nil have q: "q = []" by simp
    have "([]::string) = [] @ q @ []" using q by simp
    moreover have "\<not> prefix b (q @ [])" using q False by simp
    moreover have "re_search_group1 b q [] = Some (dot_star [])"
      using q by (simp add: dot_star_def)
    ultimately show ?thesis using none by blast
  qed
next
  case (Cons c cs)
  have none: "\<forall>k<length ([]::string).
      \<not> prefix b (drop k (c # cs)) \<and> \<not> prefix q (drop k (c # cs))"
    by simp
  show ?case
  proof (cases "prefix b (c # cs)")
    case True
    define post where "post = drop (length b) (c # cs)"
    have "c # cs = [] @ b @ post"
      using True by (auto simp: post_def prefix_def)
    moreover have "re_search_group1 b q (c # cs) = Some (dot_star post)"
      using True by (simp add: post_def)
    ultimately show ?thesis using none by blast
  next
    case nb: False
    show ?thesis
    proof (cases "prefix q (c # cs)")
      case True
      define post where "post = drop (length q) (c # cs)"
      have eq: "c # cs = [] @ q @ post"
        using True by (auto simp: post_def prefix_def)
      moreover have "\<not> prefix b (q @ post)"
        using nb eq by simp
      moreover have "re_search_group1 b q (c # cs) = Some (dot_star post)"
        using True nb by (simp add: post_def)
      ultimately show ?thesis using none by blast
    next
      case nq: False
      with nb Cons.prems have "sublist b cs \<or> sublist q cs"
        by (auto simp: sublist_Cons_right)
      from Cons.IH [OF this] obtain pre w post where
        u: "cs = pre @ w @ post" and w: "w = b \<or> w = q \<and> \<not> prefix b (w @ post)" and
        left: "\<forall>k<length pre. \<not> prefix b (drop k cs) \<and> \<not> prefix q (drop k cs)" and
        r: "re_search_group1 b q cs = Some (dot_star post)"
        by blast
      have "\<forall>k<length (c # pre).
          \<not> prefix b (drop k (c # cs)) \<and> \<not> prefix q (drop k (c # cs))"
      proof (intro allI impI)
        fix k assume "k < length (c # pre)"
        with nb nq left show "\<not> prefix b (drop k (c # cs)) \<and> \<not> prefix q (drop k (c # cs))"
          by (cases k) auto
      qed
      moreover have "re_search_group1 b q (c # cs) = Some (dot_star post)"
        using nb nq r by simp
      moreover have "c # cs = (c # pre) @ w @ post" using u by simp
      ultimately show ?thesis using w by blast
    qed
  qed
qed

section \<open>Slices with an open end\<close>

text \<open>
  The walk of \<^verbatim>\<open>_Slice.__iter__\<close> does handle an absent stop: started on a slice
  record with no stop it runs to exhaustion. Such a record is never built, though,
  since \<^verbatim>\<open>_Slice.__init__\<close> compares the stop with zero first.
\<close>

lemma Slice_iter_open_end_walk:
  "Slice_iter 5 courses \<lparr>slice_start = 0, slice_stop = None, slice_step = 2\<rparr> (init courses) =
     Some ([1, 3, 5, 7], None, three_pages)"
  by code_simp

lemma Slice_init_open_end:
  "Slice_init start None step =
     Inl (if or_default start 0 < 0
          then IndexError ''Cannot negative index a PaginatedList slice'' else TypeError)"
  by (simp add: Slice_init_def)

text \<open>
  Claim C1 (the code departs from it). The claim: over seven items the slice with start 0,
  no stop and step 2 yields the items at 0, 2, 4 and 6 and ends without error. In the
  code \<^verbatim>\<open>collection[0::2]\<close> never produces a sequence: building the slice view
  evaluates \<^verbatim>\<open>None < 0\<close> and raises TypeError, for every collection, before any
  request, leaving the collection as it was.
\<close>

theorem slice_unbounded_stop_raises:
  "getitem fuel cfg (ISlice (Some 0) None (Some 2)) s = Some (Inl TypeError, s)"
  by (simp add: Slice_init_def or_default_def)

section \<open>Where the cursor comes from\<close>

text \<open>
  Claim C2, amended. Let the request be made and answered with a decodable body.
  A non-empty link-relation map decides alone, whatever the body is: the cursor after
  the fetch is its \<^verbatim>\<open>next\<close> relation, normalised, and is absent when it has none.
  Under an empty link-relation map and a body that is a mapping carrying a string at
  \<^verbatim>\<open>meta.pagination.next\<close>, the cursor is that string, normalised.
  (The normalised locator is \<open>re_search_group1\<close> of the URL; a failed search leaves
  the cursor absent and raises, see C5.)
\<close>

theorem cursor_source_header_first:
  assumes "map_of (next_params s) ''_url'' = None"
    and "requester_request cfg (requests s) (page_request cfg s) = Inr resp"
    and "resp_json resp = Inr data"
  shows "(links resp \<noteq> [] \<longrightarrow>
            next_url (snd (get_next_page cfg s)) =
              (case map_of (links resp) ''next'' of
                 None \<Rightarrow> None
               | Some h \<Rightarrow> re_search_group1 (base_url cfg) (new_quizzes_url cfg) h)) \<and>
         (links resp = [] \<and> data = JDict d \<and> map_of d ''meta'' = Some (JDict m) \<and>
          map_of m ''pagination'' = Some (JDict p) \<and> map_of p ''next'' = Some (JStr u) \<longrightarrow>
            next_url (snd (get_next_page cfg s)) =
              re_search_group1 (base_url cfg) (new_quizzes_url cfg) u)"
proof (intro conjI impI)
  assume "links resp \<noteq> []"
  then have "next_link resp data = Inr (map_option JStr (map_of (links resp) ''next''))"
    by (simp add: next_link_def)
  then show "next_url (snd (get_next_page cfg s)) =
      (case map_of (links resp) ''next'' of
         None \<Rightarrow> None
       | Some h \<Rightarrow> re_search_group1 (base_url cfg) (new_quizzes_url cfg) h)"
    by (simp add: get_next_page_response [OF assms] normalise_def split: option.splits)
next
  assume "links resp = [] \<and> data = JDict d \<and> map_of d ''meta'' = Some (JDict m) \<and>
      map_of m ''pagination'' = Some (JDict p) \<and> map_of p ''next'' = Some (JStr u)"
  then have "next_link resp data = Inr (Some (JStr u))"
    by (simp add: next_link_def meta_next_def)
  then show "next_url (snd (get_next_page cfg s)) =
      re_search_group1 (base_url cfg) (new_quizzes_url cfg) u"
    by (simp add: get_next_page_response [OF assms] normalise_def split: option.splits)
qed

theorem cursor_source_header_first_witness:
  "next_url (snd (get_next_page courses two_pages)) = None \<and>
   next_url (snd (get_next_page
      (once [] (meta_next_body ''https://h/api/quiz/v1/courses?page=2'') (Some ''items''))
      (init (once [] (meta_next_body ''https://h/api/quiz/v1/courses?page=2'') (Some ''items''))))) =
     Some ''courses?page=2'' \<and>
   next_url (snd (get_next_page
      (once [(''prev'', ''https://h/api/v1/courses'')]
         (meta_next_body ''https://h/api/v1/courses?page=3'') (Some ''items''))
      (init (once [(''prev'', ''https://h/api/v1/courses'')]
         (meta_next_body ''https://h/api/v1/courses?page=3'') (Some ''items''))))) = None"
proof -
  let ?u = "''https://h/api/quiz/v1/courses?page=2''"
  let ?c = "once [] (meta_next_body ?u) (Some ''items'')"
  let ?r = "\<lparr>links = [], resp_json = Inr (meta_next_body ?u)\<rparr>"
  let ?v = "''https://h/api/v1/courses?page=3''"
  let ?l = "[(''prev'', ''https://h/api/v1/courses'')]"
  let ?c' = "once ?l (meta_next_body ?v) (Some ''items'')"
  let ?r' = "\<lparr>links = ?l, resp_json = Inr (meta_next_body ?v)\<rparr>"
  have k: "map_of (next_params (init ?c)) ''_url'' = None"
    by (simp add: init_def once_def answering_def first_params_def)
  have r: "requester_request ?c (requests (init ?c)) (page_request ?c (init ?c)) = Inr ?r"
    by (simp add: once_def answering_def)
  have j: "resp_json ?r = Inr (meta_next_body ?u)" by simp
  have b: "meta_next_body ?u =
      JDict [(''items'', JList [course 1, course 2]),
             (''meta'', JDict [(''pagination'', JDict [(''next'', JStr ?u)])])]"
    by (simp add: meta_next_body_def meta_body_def)
  have k': "map_of (next_params (init ?c')) ''_url'' = None"
    by (simp add: init_def once_def answering_def first_params_def)
  have r': "requester_request ?c' (requests (init ?c')) (page_request ?c' (init ?c')) = Inr ?r'"
    by (simp add: once_def answering_def)
  have j': "resp_json ?r' = Inr (meta_next_body ?v)" by simp
  let ?r'' = "\<lparr>links = [(''prev'', ''https://h/api/v1/courses?page=2'')],
               resp_json = Inr (JList [course 6, course 7])\<rparr>"
  have k'': "map_of (next_params two_pages) ''_url'' = None"
    by (simp add: two_pages_def)
  have r'': "requester_request courses (requests two_pages) (page_request courses two_pages) =
      Inr ?r''"
    by (simp add: courses_def answering_def course_server_def page_request_def two_pages_def)
  have j'': "resp_json ?r'' = Inr (JList [course 6, course 7])" by simp
  have "next_url (snd (get_next_page ?c (init ?c))) =
      re_search_group1 (base_url ?c) (new_quizzes_url ?c) ?u"
    using cursor_source_header_first [OF k r j,
        of "[(''items'', JList [course 1, course 2]),
             (''meta'', JDict [(''pagination'', JDict [(''next'', JStr ?u)])])]"
        "[(''pagination'', JDict [(''next'', JStr ?u)])]" "[(''next'', JStr ?u)]" ?u] b
    by simp
  moreover have "re_search_group1 (base_url ?c) (new_quizzes_url ?c) ?u = Some ''courses?page=2''"
    by (simp add: once_def answering_def dot_star_def)
  moreover have "next_url (snd (get_next_page ?c' (init ?c'))) = None"
    using cursor_source_header_first [OF k' r' j'] by simp
  moreover have "next_url (snd (get_next_page courses two_pages)) = None"
    using cursor_source_header_first [OF k'' r'' j''] by simp
  ultimately show ?thesis by simp
qed

text \<open>
  The claim as first stated fails on a last-but-one page that carries only a
  \<^verbatim>\<open>prev\<close> link and a \<^verbatim>\<open>meta.pagination.next\<close>: the link map has no \<^verbatim>\<open>next\<close>,
  the body names a next page on the primary host, and the fetch leaves the cursor absent.
\<close>

theorem meta_ignored_beside_other_links:
  "map_of [(''prev'', ''https://h/api/v1/courses'')] ''next'' = None \<and>
   meta_next (meta_next_body ''https://h/api/v1/courses?page=3'') =
     Inr (JStr ''https://h/api/v1/courses?page=3'') \<and>
   re_search_group1 ''https://h/api/v1/'' ''https://h/api/quiz/v1/''
     ''https://h/api/v1/courses?page=3'' = Some ''courses?page=3'' \<and>
   get_next_page
     (once [(''prev'', ''https://h/api/v1/courses'')]
        (meta_next_body ''https://h/api/v1/courses?page=3'') (Some ''items''))
     \<lparr>elements = [], next_url = Some ''courses?page=2'', next_params = [], requests = []\<rparr> =
     (Inr [1, 2],
      \<lparr>elements = [], next_url = None, next_params = [],
       requests = [\<lparr>req_method = ''GET'', req_url = Some ''courses?page=2'',
                    req_url_override = None, req_params = []\<rparr>]\<rparr>)"
  by code_simp

section \<open>Full iteration\<close>




section \<open>The backing store only grows\<close>

text \<open>
  Claim C4. Index access (with any argument), a slice walk, a full iteration and every
  single step of an iteration pass, however they end and whatever happened to the
  collection before, leave a collection whose elements extend the elements before by a
  suffix, and leave the cursor absent if it was absent before.
\<close>

theorem operations_append_only:
  "(getitem fuel cfg idx s = Some (r, s1) \<longrightarrow>
      prefix (elements s) (elements s1) \<and> (next_url s = None \<longrightarrow> next_url s1 = None)) \<and>
   (Slice_iter fuel cfg sl s = Some (ys, e, s2) \<longrightarrow>
      prefix (elements s) (elements s2) \<and> (next_url s = None \<longrightarrow> next_url s2 = None)) \<and>
   (iter fuel cfg s = Some (zs, e', s3) \<longrightarrow>
      prefix (elements s) (elements s3) \<and> (next_url s = None \<longrightarrow> next_url s3 = None)) \<and>
   (iter_next fuel cfg g s = Some (r', g', s4) \<longrightarrow>
      prefix (elements s) (elements s4) \<and> (next_url s = None \<longrightarrow> next_url s4 = None))"
proof (intro conjI impI)
  assume "getitem fuel cfg idx s = Some (r, s1)"
  then show "prefix (elements s) (elements s1)" by (rule getitem_prefix)
next
  assume "getitem fuel cfg idx s = Some (r, s1)" "next_url s = None"
  then show "next_url s1 = None" by (auto dest: getitem_exhausted)
next
  assume "Slice_iter fuel cfg sl s = Some (ys, e, s2)"
  then show "prefix (elements s) (elements s2)"
    unfolding Slice_iter_def by (rule Slice_iter_from_prefix)
next
  assume "Slice_iter fuel cfg sl s = Some (ys, e, s2)" "next_url s = None"
  then show "next_url s2 = None"
    unfolding Slice_iter_def by (auto dest: Slice_iter_from_exhausted)
next
  assume "iter fuel cfg s = Some (zs, e', s3)"
  then show "prefix (elements s) (elements s3)"
    by (auto simp: iter_def split: option.splits dest: iter_pages_prefix)
next
  assume "iter fuel cfg s = Some (zs, e', s3)" "next_url s = None"
  then show "next_url s3 = None"
    by (auto simp: iter_def iter_pages_exhausted)
next
  assume "iter_next fuel cfg g s = Some (r', g', s4)"
  then show "prefix (elements s) (elements s4)" by (rule iter_next_prefix)
next
  assume "iter_next fuel cfg g s = Some (r', g', s4)" "next_url s = None"
  then show "next_url s4 = None" by (auto dest: iter_next_exhausted)
qed

theorem operations_append_only_witness:
  "(getitem 5 courses (IInt 4) (init courses) = Some (Inr (Element 5), two_pages) \<and>
    prefix (elements (init courses)) (elements two_pages)) \<and>
   (Slice_iter 5 courses \<lparr>slice_start = 2, slice_stop = Some 5, slice_step = 1\<rparr> (init courses) =
      Some ([3, 4, 5], None, two_pages) \<and>
    prefix (elements (init courses)) (elements two_pages)) \<and>
   (iter 5 courses (init courses) = Some ([1, 2, 3, 4, 5, 6, 7], None, three_pages) \<and>
    prefix (elements (init courses)) (elements three_pages)) \<and>
   (iter_next 5 courses (Fresh []) one_page = Some (Inr (Some 4), Fresh [5], two_pages) \<and>
    prefix (elements one_page) (elements two_pages)) \<and>
   (next_url three_pages = None \<and>
    getitem 0 courses (IInt 9) three_pages =
      Some (Inl (IndexError ''list index out of range''), three_pages) \<and>
    Slice_iter 5 courses \<lparr>slice_start = 2, slice_stop = Some 5, slice_step = 1\<rparr> three_pages =
      Some ([3, 4, 5], None, three_pages) \<and>
    iter 0 courses three_pages = Some ([1, 2, 3, 4, 5, 6, 7], None, three_pages) \<and>
    iter_next 0 courses (Fresh []) three_pages = Some (Inr None, Done, three_pages))"
proof -
  let ?sl = "\<lparr>slice_start = 2, slice_stop = Some 5, slice_step = 1\<rparr>"
  have a: "getitem 5 courses (IInt 4) (init courses) = Some (Inr (Element 5), two_pages)"
    by code_simp
  have b: "Slice_iter 5 courses ?sl (init courses) = Some ([3, 4, 5], None, two_pages)"
    by code_simp
  have c: "iter 5 courses (init courses) = Some ([1, 2, 3, 4, 5, 6, 7], None, three_pages)"
    by code_simp
  have n: "iter_next 5 courses (Fresh []) one_page = Some (Inr (Some 4), Fresh [5], two_pages)"
    by code_simp
  have d: "next_url three_pages = None"
    by (simp add: three_pages_def)
  have a': "getitem 0 courses (IInt 9) three_pages =
      Some (Inl (IndexError ''list index out of range''), three_pages)"
    by code_simp
  have b': "Slice_iter 5 courses ?sl three_pages = Some ([3, 4, 5], None, three_pages)"
    by code_simp
  have c': "iter 0 courses three_pages = Some ([1, 2, 3, 4, 5, 6, 7], None, three_pages)"
    by code_simp
  have n': "iter_next 0 courses (Fresh []) three_pages = Some (Inr None, Done, three_pages)"
    by code_simp
  note first = operations_append_only [of 5 courses "IInt 4" "init courses" "Inr (Element 5)" two_pages
      ?sl "[3, 4, 5]" None two_pages "[1, 2, 3, 4, 5, 6, 7]" None three_pages]
  note step = operations_append_only [of 5 courses _ one_page _ _ _ _ _ _ _ _ _
      "Fresh []" "Inr (Some 4)" "Fresh [5]" two_pages]
  note second = operations_append_only [of 0 courses "IInt 9" three_pages
      "Inl (IndexError ''list index out of range'')" three_pages]
  from first a b c have "prefix (elements (init courses)) (elements two_pages)"
    "prefix (elements (init courses)) (elements three_pages)" by blast+
  moreover from step n have "prefix (elements one_page) (elements two_pages)" by blast
  moreover from second a' d have "next_url three_pages = None" by blast
  ultimately show ?thesis using a b c n a' b' c' n' by blast
qed

section \<open>Next-page URLs on another host\<close>

text \<open>
  Claim C5, amended. Let the request be made and answered, and a next-page URL be
  obtained, from the \<^verbatim>\<open>next\<close> link or, under an empty link map, from
  \<^verbatim>\<open>meta.pagination.next\<close>. If neither base URL occurs anywhere in it, growing the
  collection raises (an AttributeError, from reading the group of a failed search),
  appends nothing and leaves the cursor absent. If a base URL occurs in it, at the
  start or further right, the URL is accepted: the cursor becomes what follows the
  leftmost occurrence of a base URL (the primary one where both start there) up to
  the first line feed, and the fetch ends as the construction of the page's items ends.
  The search is not anchored, so the test is occurrence, not prefix.
\<close>

theorem unknown_host_raises:
  assumes "map_of (next_params s) ''_url'' = None"
    and "requester_request cfg (requests s) (page_request cfg s) = Inr resp"
    and "resp_json resp = Inr data"
    and "map_of (links resp) ''next'' = Some u \<or>
         (links resp = [] \<and> has_key data ''meta'' \<and> meta_next data = Inr (JStr u))"
  shows "(\<not> sublist (base_url cfg) u \<and> \<not> sublist (new_quizzes_url cfg) u \<longrightarrow>
            grow cfg s =
              (Inl AttributeError,
               s\<lparr>requests := requests s @ [page_request cfg s], next_url := None\<rparr>)) \<and>
         (sublist (base_url cfg) u \<or> sublist (new_quizzes_url cfg) u \<longrightarrow>
            (\<exists>pre w post.
               u = pre @ w @ post \<and>
               (w = base_url cfg \<or>
                w = new_quizzes_url cfg \<and> \<not> prefix (base_url cfg) (w @ post)) \<and>
               (\<forall>k<length pre. \<not> prefix (base_url cfg) (drop k u) \<and>
                               \<not> prefix (new_quizzes_url cfg) (drop k u)) \<and>
               get_next_page cfg s =
                 (page_content cfg data,
                  s\<lparr>requests := requests s @ [page_request cfg s],
                    next_url := Some (dot_star post), next_params := []\<rparr>)))"
proof (intro conjI impI)
  from assms(4) have nl: "next_link resp data = Inr (Some (JStr u))"
    by (auto simp: next_link_def)
  {
    assume "\<not> sublist (base_url cfg) u \<and> \<not> sublist (new_quizzes_url cfg) u"
    then have "normalise cfg (Some (JStr u)) = Inl AttributeError"
      by (simp add: normalise_def re_search_group1_None [THEN iffD2])
    with nl show "grow cfg s =
        (Inl AttributeError,
         s\<lparr>requests := requests s @ [page_request cfg s], next_url := None\<rparr>)"
      by (simp add: grow_def get_next_page_response [OF assms(1-3)])
  next
    assume "sublist (base_url cfg) u \<or> sublist (new_quizzes_url cfg) u"
    from re_search_group1_leftmost [OF this] obtain pre w post where
      u: "u = pre @ w @ post" and
      w: "w = base_url cfg \<or> w = new_quizzes_url cfg \<and> \<not> prefix (base_url cfg) (w @ post)" and
      left: "\<forall>k<length pre. \<not> prefix (base_url cfg) (drop k u) \<and>
                            \<not> prefix (new_quizzes_url cfg) (drop k u)" and
      r: "re_search_group1 (base_url cfg) (new_quizzes_url cfg) u = Some (dot_star post)"
      by blast
    from r have "normalise cfg (Some (JStr u)) = Inr (Some (dot_star post))"
      by (simp add: normalise_def)
    with nl have "get_next_page cfg s =
        (page_content cfg data,
         s\<lparr>requests := requests s @ [page_request cfg s],
           next_url := Some (dot_star post), next_params := []\<rparr>)"
      by (simp add: get_next_page_response [OF assms(1-3)])
    with u w left show "\<exists>pre w post.
        u = pre @ w @ post \<and>
        (w = base_url cfg \<or> w = new_quizzes_url cfg \<and> \<not> prefix (base_url cfg) (w @ post)) \<and>
        (\<forall>k<length pre. \<not> prefix (base_url cfg) (drop k u) \<and>
                        \<not> prefix (new_quizzes_url cfg) (drop k u)) \<and>
        get_next_page cfg s =
          (page_content cfg data,
           s\<lparr>requests := requests s @ [page_request cfg s],
             next_url := Some (dot_star post), next_params := []\<rparr>)"
      by blast
  }
qed

theorem unknown_host_raises_witness:
  "grow (once [(''next'', ''https://elsewhere/api/v1/courses?page=2'')]
           (JList [course 1, course 2]) None)
     (init (once [(''next'', ''https://elsewhere/api/v1/courses?page=2'')]
           (JList [course 1, course 2]) None)) =
     (Inl AttributeError,
      \<lparr>elements = [], next_url = None, next_params = [(''per_page'', JInt 100)],
       requests = [\<lparr>req_method = ''GET'', req_url = Some ''courses'',
                    req_url_override = None, req_params = [(''per_page'', JInt 100)]\<rparr>]\<rparr>) \<and>
   sublist ''https://h/api/v1/'' ''https://proxy/?to=https://h/api/v1/courses?page=2'' \<and>
   next_url (snd (get_next_page
      (once [(''next'', ''https://proxy/?to=https://h/api/v1/courses?page=2'')]
         (JList [course 1, course 2]) None)
      (init (once [(''next'', ''https://proxy/?to=https://h/api/v1/courses?page=2'')]
         (JList [course 1, course 2]) None)))) \<noteq> None"
proof -
  let ?u = "''https://elsewhere/api/v1/courses?page=2''"
  let ?v = "''https://proxy/?to=https://h/api/v1/courses?page=2''"
  let ?d = "JList [course 1, course 2]"
  let ?c = "once [(''next'', ?u)] ?d None"
  let ?r = "\<lparr>links = [(''next'', ?u)], resp_json = Inr ?d\<rparr>"
  let ?c' = "once [(''next'', ?v)] ?d None"
  let ?r' = "\<lparr>links = [(''next'', ?v)], resp_json = Inr ?d\<rparr>"
  have k: "map_of (next_params (init ?c)) ''_url'' = None"
    by (simp add: init_def once_def answering_def first_params_def)
  have r: "requester_request ?c (requests (init ?c)) (page_request ?c (init ?c)) = Inr ?r"
    by (simp add: once_def answering_def)
  have j: "resp_json ?r = Inr ?d" by simp
  have l: "map_of (links ?r) ''next'' = Some ?u \<or>
      (links ?r = [] \<and> has_key ?d ''meta'' \<and> meta_next ?d = Inr (JStr ?u))"
    by simp
  have b: "\<not> sublist (base_url ?c) ?u \<and> \<not> sublist (new_quizzes_url ?c) ?u"
    by (simp add: once_def answering_def sublist_Cons_right)
  have k': "map_of (next_params (init ?c')) ''_url'' = None"
    by (simp add: init_def once_def answering_def first_params_def)
  have r': "requester_request ?c' (requests (init ?c')) (page_request ?c' (init ?c')) = Inr ?r'"
    by (simp add: once_def answering_def)
  have j': "resp_json ?r' = Inr ?d" by simp
  have l': "map_of (links ?r') ''next'' = Some ?v \<or>
      (links ?r' = [] \<and> has_key ?d ''meta'' \<and> meta_next ?d = Inr (JStr ?v))"
    by simp
  have b': "sublist ''https://h/api/v1/'' ?v"
    by (simp add: sublist_Cons_right)
  then have b'': "sublist (base_url ?c') ?v \<or> sublist (new_quizzes_url ?c') ?v"
    by (simp add: once_def answering_def)
  from unknown_host_raises [OF k r j l] b
  have "grow ?c (init ?c) =
      (Inl AttributeError,
       (init ?c)\<lparr>requests := requests (init ?c) @ [page_request ?c (init ?c)],
         next_url := None\<rparr>)"
    by blast
  then have first: "grow ?c (init ?c) =
      (Inl AttributeError,
       \<lparr>elements = [], next_url = None, next_params = [(''per_page'', JInt 100)],
        requests = [\<lparr>req_method = ''GET'', req_url = Some ''courses'',
                     req_url_override = None, req_params = [(''per_page'', JInt 100)]\<rparr>]\<rparr>)"
    by (simp add: init_def page_request_def once_def answering_def first_params_def)
  from unknown_host_raises [OF k' r' j' l'] b''
  obtain post where "get_next_page ?c' (init ?c') =
      (page_content ?c' ?d,
       (init ?c')\<lparr>requests := requests (init ?c') @ [page_request ?c' (init ?c')],
         next_url := Some (dot_star post), next_params := []\<rparr>)"
    by blast
  then have "next_url (snd (get_next_page ?c' (init ?c'))) \<noteq> None" by simp
  with first b' show ?thesis by blast
qed

text \<open>
  The claim as first stated, with the base URLs as prefixes, fails on a URL that starts
  with another host and carries the primary base URL further right: the fetch succeeds
  and pagination continues with what follows the embedded base URL.
\<close>

theorem embedded_base_url_accepted:
  "\<not> prefix ''https://h/api/v1/'' ''https://proxy/?to=https://h/api/v1/courses?page=2'' \<and>
   \<not> prefix ''https://h/api/quiz/v1/'' ''https://proxy/?to=https://h/api/v1/courses?page=2'' \<and>
   grow (once [(''next'', ''https://proxy/?to=https://h/api/v1/courses?page=2'')]
           (JList [course 1, course 2]) None)
     \<lparr>elements = [], next_url = Some ''courses'', next_params = [], requests = []\<rparr> =
     (Inr [1, 2],
      \<lparr>elements = [1, 2], next_url = Some ''courses?page=2'', next_params = [],
       requests = [\<lparr>req_method = ''GET'', req_url = Some ''courses'',
                    req_url_override = None, req_params = []\<rparr>]\<rparr>)"
  by code_simp

section \<open>The meta fallback\<close>

text \<open>
  Claim C6, amended. Let the request be made and answered. Under an empty link map and a body that is a mapping whose
  \<^verbatim>\<open>meta\<close> is a mapping without \<^verbatim>\<open>pagination\<close>, or with a \<^verbatim>\<open>pagination\<close> mapping
  without \<^verbatim>\<open>next\<close>, the missing path raises nothing: the cursor is set to absent, the
  parameters are reset, and the fetch ends as the construction of the page's items
  ends. That construction raises when no root is configured, the body being a mapping.
\<close>

theorem missing_meta_path_ends_pagination:
  assumes "map_of (next_params s) ''_url'' = None"
    and "requester_request cfg (requests s) (page_request cfg s) = Inr resp"
    and "links resp = []"
    and "resp_json resp = Inr (JDict d)"
    and "map_of d ''meta'' = Some (JDict m)"
    and "map_of m ''pagination'' = None \<or>
         (\<exists>p. map_of m ''pagination'' = Some (JDict p) \<and> map_of p ''next'' = None)"
  shows "get_next_page cfg s =
           (page_content cfg (JDict d),
            s\<lparr>requests := requests s @ [page_request cfg s],
              next_url := None, next_params := []\<rparr>) \<and>
         (root cfg = None \<longrightarrow> page_content cfg (JDict d) = Inl AttributeError)"
proof
  from assms(3,5,6) have "next_link resp (JDict d) = Inr None"
    by (auto simp: next_link_def meta_next_def)
  then show "get_next_page cfg s =
      (page_content cfg (JDict d),
       s\<lparr>requests := requests s @ [page_request cfg s], next_url := None, next_params := []\<rparr>)"
    by (simp add: get_next_page_response [OF assms(1,2,4)] normalise_def)
next
  from assms(5) have "d \<noteq> []" by auto
  then show "root cfg = None \<longrightarrow> page_content cfg (JDict d) = Inl AttributeError"
    by (simp add: page_content_mapping_no_root)
qed

theorem missing_meta_path_ends_pagination_witness:
  "get_next_page (once [] (meta_body []) (Some ''items'')) (init (once [] (meta_body []) (Some ''items''))) =
     (Inr [1, 2],
      \<lparr>elements = [], next_url = None, next_params = [],
       requests = [\<lparr>req_method = ''GET'', req_url = Some ''courses'',
                    req_url_override = None, req_params = [(''per_page'', JInt 100)]\<rparr>]\<rparr>) \<and>
   page_content (once [] (meta_body [(''pagination'', JDict [])]) None)
     (JDict [(''items'', JList [course 1, course 2]), (''meta'', JDict [(''pagination'', JDict [])])]) =
     Inl AttributeError"
proof -
  let ?c = "once [] (meta_body []) (Some ''items'')"
  let ?r = "\<lparr>links = [], resp_json = Inr (meta_body [])\<rparr>"
  let ?d = "[(''items'', JList [course 1, course 2]), (''meta'', JDict [])]"
  let ?m' = "[(''pagination'', JDict [])]"
  let ?c' = "once [] (meta_body ?m') None"
  let ?r' = "\<lparr>links = [], resp_json = Inr (meta_body ?m')\<rparr>"
  let ?d' = "[(''items'', JList [course 1, course 2]), (''meta'', JDict ?m')]"
  have k: "map_of (next_params (init ?c)) ''_url'' = None"
    by (simp add: init_def once_def answering_def first_params_def)
  have k': "map_of (next_params (init ?c')) ''_url'' = None"
    by (simp add: init_def once_def answering_def first_params_def)
  have r: "requester_request ?c (requests (init ?c)) (page_request ?c (init ?c)) = Inr ?r"
    by (simp add: once_def answering_def)
  have l: "links ?r = []" by simp
  have j: "resp_json ?r = Inr (JDict ?d)" by (simp add: meta_body_def)
  have m: "map_of ?d ''meta'' = Some (JDict [])" by simp
  have n: "map_of [] ''pagination'' = None \<or>
      (\<exists>p. map_of [] ''pagination'' = Some (JDict p) \<and> map_of p ''next'' = None)"
    by simp
  have pc: "page_content ?c (JDict ?d) = Inr [1, 2]"
    by code_simp
  have r': "requester_request ?c' (requests (init ?c')) (page_request ?c' (init ?c')) = Inr ?r'"
    by (simp add: once_def answering_def)
  have l': "links ?r' = []" by simp
  have j': "resp_json ?r' = Inr (JDict ?d')" by (simp add: meta_body_def)
  have m': "map_of ?d' ''meta'' = Some (JDict ?m')" by simp
  have n': "map_of ?m' ''pagination'' = None \<or>
      (\<exists>p. map_of ?m' ''pagination'' = Some (JDict p) \<and> map_of p ''next'' = None)"
    by simp
  have nr: "root ?c' = None" by (simp add: once_def answering_def)
  from missing_meta_path_ends_pagination [OF k r l j m n] pc
  have "get_next_page ?c (init ?c) =
      (Inr [1, 2], (init ?c)\<lparr>requests := requests (init ?c) @ [page_request ?c (init ?c)],
         next_url := None, next_params := []\<rparr>)"
    by simp
  moreover from missing_meta_path_ends_pagination [OF k' r' l' j' m' n'] nr
  have "page_content ?c' (JDict ?d') = Inl AttributeError" by blast
  ultimately show ?thesis
    by (simp add: init_def page_request_def once_def answering_def first_params_def)
qed

text \<open>
  The claim as first stated, that such a fetch completes normally, fails on the body
  \<^verbatim>\<open>{"meta": {}}\<close> with no root: iterating the mapping yields the key
  \<^verbatim>\<open>"meta"\<close>, a string, which has no \<^verbatim>\<open>update\<close>.
\<close>

theorem bare_meta_body_raises:
  "get_next_page (once [] (JDict [(''meta'', JDict [])]) None)
     \<lparr>elements = [], next_url = Some ''courses'', next_params = [], requests = []\<rparr> =
     (Inl AttributeError,
      \<lparr>elements = [], next_url = None, next_params = [],
       requests = [\<lparr>req_method = ''GET'', req_url = Some ''courses'',
                    req_url_override = None, req_params = []\<rparr>]\<rparr>)"
  by code_simp

section \<open>Index access\<close>

text \<open>
  Claim C7. For every negative integer, index access raises the IndexError
  "Cannot negative index a PaginatedList" whatever the fuel, and returns the collection
  unchanged: no request added, no element appended, same cursor.
\<close>

theorem getitem_negative_index:
  "i < 0 \<Longrightarrow>
     getitem fuel cfg (IInt i) s =
       Some (Inl (IndexError ''Cannot negative index a PaginatedList''), s)"
  by (simp add: getitem_int.simps)

theorem getitem_negative_index_witness:
  "(-1::int) < 0 \<and> getitem 0 courses (IInt (-1)) (init courses) =
     Some (Inl (IndexError ''Cannot negative index a PaginatedList''), init courses)"
  using getitem_negative_index [of "-1" 0 courses "init courses"] by simp

text \<open>
  Claim C8. Once \<^verbatim>\<open>collection[i]\<close> has returned an element, every later read of the
  same index, on the collection as that read left it or as any operation extended it
  since, returns the same element with no fuel at all, and so without a fetch, and
  leaves the collection unchanged.
\<close>

theorem getitem_repeated_read:
  assumes "getitem fuel cfg (IInt i) s = Some (Inr (Element x), s1)"
    and "prefix (elements s1) (elements s2)"
  shows "getitem fuel' cfg (IInt i) s2 = Some (Inr (Element x), s2)"
proof -
  from assms(1) have "getitem_int fuel cfg i s = Some (Inr x, s1)"
    by (auto split: option.splits sum.splits)
  then have ok: "0 \<le> i" "nat i < length (elements s1)" "x = elements s1 ! nat i"
    by (auto dest: getitem_int_ok)
  from assms(2) obtain zs where zs: "elements s2 = elements s1 @ zs"
    by (auto simp: prefix_def)
  with ok have "nat i < length (elements s2)" "elements s2 ! nat i = x"
    by (auto simp: nth_append)
  with ok(1) getitem_int_again [of i s2 fuel' cfg] show ?thesis by simp
qed

theorem getitem_repeated_read_witness:
  "getitem 2 courses (IInt 4) (init courses) = Some (Inr (Element 5), two_pages) \<and>
   prefix (elements two_pages) (elements three_pages) \<and>
   getitem 0 courses (IInt 4) three_pages = Some (Inr (Element 5), three_pages)"
proof -
  have h: "getitem 2 courses (IInt 4) (init courses) = Some (Inr (Element 5), two_pages)"
    by code_simp
  have p: "prefix (elements two_pages) (elements three_pages)"
    by code_simp
  from getitem_repeated_read [OF h p, of 0] h p show ?thesis by simp
qed

text \<open>
  Claim C9. For every argument that is neither an integer nor a slice, index access
  raises AssertionError and returns the collection unchanged.
\<close>

theorem getitem_asserts_index_type:
  "(\<forall>i. idx \<noteq> IInt i) \<Longrightarrow> (\<forall>a b c. idx \<noteq> ISlice a b c) \<Longrightarrow>
     getitem fuel cfg idx s = Some (Inl AssertionError, s)"
  by (cases idx) auto

theorem getitem_asserts_index_type_witness:
  "getitem 0 courses (IStr ''3'') (init courses) = Some (Inl AssertionError, init courses)"
  using getitem_asserts_index_type [of "IStr ''3''" 0 courses "init courses"] by simp

section \<open>A meta field that is not a mapping\<close>

text \<open>
  Claim C10. Let the request be made and answered. Under an empty link map and a body that is a mapping with a \<^verbatim>\<open>meta\<close>
  field, if the value of \<^verbatim>\<open>meta\<close> is not a mapping, or is a mapping whose
  \<^verbatim>\<open>pagination\<close> is present and not a mapping, the fetch raises TypeError, with the
  request issued, nothing appended and the cursor absent.
\<close>

theorem meta_not_mapping_raises:
  assumes "map_of (next_params s) ''_url'' = None"
    and "requester_request cfg (requests s) (page_request cfg s) = Inr resp"
    and "links resp = []"
    and "resp_json resp = Inr (JDict d)"
    and "map_of d ''meta'' = Some m"
    and "(\<forall>md. m \<noteq> JDict md) \<or>
         (\<exists>md p. m = JDict md \<and> map_of md ''pagination'' = Some p \<and> (\<forall>pd. p \<noteq> JDict pd))"
  shows "get_next_page cfg s =
           (Inl TypeError,
            s\<lparr>requests := requests s @ [page_request cfg s], next_url := None\<rparr>)"
proof -
  from assms(5,6) have "meta_next (JDict d) = Inl TypeError"
    by (auto simp: meta_next_def json_item_not_mapping)
  with assms(3,5) have "next_link resp (JDict d) = Inl TypeError"
    by (simp add: next_link_def)
  then show ?thesis
    by (simp add: get_next_page_response [OF assms(1,2,4)])
qed

theorem meta_not_mapping_raises_witness:
  "get_next_page (once [] (JDict [(''meta'', JNull)]) None)
     (init (once [] (JDict [(''meta'', JNull)]) None)) =
     (Inl TypeError,
      \<lparr>elements = [], next_url = None, next_params = [(''per_page'', JInt 100)],
       requests = [\<lparr>req_method = ''GET'', req_url = Some ''courses'',
                    req_url_override = None, req_params = [(''per_page'', JInt 100)]\<rparr>]\<rparr>) \<and>
   get_next_page (once [] (meta_body [(''pagination'', JList [])]) (Some ''items''))
     (init (once [] (meta_body [(''pagination'', JList [])]) (Some ''items''))) =
     (Inl TypeError,
      \<lparr>elements = [], next_url = None, next_params = [(''per_page'', JInt 100)],
       requests = [\<lparr>req_method = ''GET'', req_url = Some ''courses'',
                    req_url_override = None, req_params = [(''per_page'', JInt 100)]\<rparr>]\<rparr>)"
proof -
  let ?d = "[(''meta'', JNull)]"
  let ?c = "once [] (JDict ?d) None"
  let ?r = "\<lparr>links = [], resp_json = Inr (JDict ?d)\<rparr>"
  let ?m' = "[(''pagination'', JList [])]"
  let ?d' = "[(''items'', JList [course 1, course 2]), (''meta'', JDict ?m')]"
  let ?c' = "once [] (meta_body ?m') (Some ''items'')"
  let ?r' = "\<lparr>links = [], resp_json = Inr (meta_body ?m')\<rparr>"
  have k: "map_of (next_params (init ?c)) ''_url'' = None"
    by (simp add: init_def once_def answering_def first_params_def)
  have k': "map_of (next_params (init ?c')) ''_url'' = None"
    by (simp add: init_def once_def answering_def first_params_def)
  have r: "requester_request ?c (requests (init ?c)) (page_request ?c (init ?c)) = Inr ?r"
    by (simp add: once_def answering_def)
  have l: "links ?r = []" by simp
  have j: "resp_json ?r = Inr (JDict ?d)" by simp
  have m: "map_of ?d ''meta'' = Some JNull" by simp
  have n: "(\<forall>md. JNull \<noteq> JDict md) \<or>
      (\<exists>md p. JNull = JDict md \<and> map_of md ''pagination'' = Some p \<and> (\<forall>pd. p \<noteq> JDict pd))"
    by simp
  have r': "requester_request ?c' (requests (init ?c')) (page_request ?c' (init ?c')) = Inr ?r'"
    by (simp add: once_def answering_def)
  have l': "links ?r' = []" by simp
  have j': "resp_json ?r' = Inr (JDict ?d')" by (simp add: meta_body_def)
  have m': "map_of ?d' ''meta'' = Some (JDict ?m')" by simp
  have n': "(\<forall>md. JDict ?m' \<noteq> JDict md) \<or>
      (\<exists>md p. JDict ?m' = JDict md \<and> map_of md ''pagination'' = Some p \<and> (\<forall>pd. p \<noteq> JDict pd))"
    by simp
  from meta_not_mapping_raises [OF k r l j m n] meta_not_mapping_raises [OF k' r' l' j' m' n']
  show ?thesis
    by (simp add: init_def page_request_def once_def answering_def first_params_def)
qed

end
